theory Spec2Isabelle
  imports Main "HOL-Library.Word" "HOL-Library.Char_ord" "HOL-Library.List_Lexorder"
begin

section \<open>The hash ring of \<^verbatim>\<open>hashring.py\<close>\<close>

text \<open>
  A shallow embedding of the class \<^verbatim>\<open>HashRing\<close>. Python strings are \<open>string\<close>
  (characters with code points below 256), compared lexicographically by code point as
  Python compares \<^verbatim>\<open>str\<close>. The dictionary \<^verbatim>\<open>self.ring\<close> is a map, the list
  \<^verbatim>\<open>self._sorted_keys\<close> a list, and every exception the methods can raise is a value
  of \<open>error\<close>. A method that mutates the object takes the state and returns the new one;
  when it raises, the state reached at the raise is returned beside the error, since
  Python keeps the mutations made before the exception.
\<close>

subsection \<open>Data\<close>

type_synonym byte = "8 word"
type_synonym node = string

text \<open>
  \<^verbatim>\<open>md5_constructor\<close> is a module-level binding to a library function
  (\<^verbatim>\<open>hashlib.md5\<close> or \<^verbatim>\<open>md5.new\<close>). The library is not part of the repository, so the
  digest is a parameter of the model: a function from the bytes fed to the hash object to
  the 128-bit digest, read as a big-endian number.
\<close>

type_synonym md5_fn = "byte list \<Rightarrow> 128 word"

datatype error = KeyError string | ValueError string | IndexError

record hashring =
  replicas :: int
  ring :: "string \<rightharpoonup> node"
  sorted_keys :: "string list"

subsection \<open>\<^verbatim>\<open>gen_key\<close>\<close>

text \<open>\<^verbatim>\<open>key.encode('utf8')\<close> for code points below 256: one byte below 128, two above.\<close>

definition encode_utf8 :: "string \<Rightarrow> byte list" where
  "encode_utf8 s = concat (map (\<lambda>c. let n = (of_char c :: nat) in
       if n < 128 then [of_nat n] else [of_nat (192 + n div 64), of_nat (128 + n mod 64)]) s)"

text \<open>The sixteen bytes of a digest, most significant first.\<close>

fun be_bytes :: "nat \<Rightarrow> nat \<Rightarrow> byte list" where
  "be_bytes 0 v = []"
| "be_bytes (Suc n) v = be_bytes n (v div 256) @ [of_nat (v mod 256)]"

definition digest :: "128 word \<Rightarrow> byte list" where
  "digest w = be_bytes 16 (unat w)"

definition hex_digit :: "nat \<Rightarrow> char" where
  "hex_digit n = (if n < 10 then char_of (48 + n) else char_of (87 + n))"

definition hex_byte :: "byte \<Rightarrow> string" where
  "hex_byte b = [hex_digit (unat b div 16), hex_digit (unat b mod 16)]"

text \<open>\<^verbatim>\<open>m.hexdigest()\<close>: two lowercase hexadecimal digits for each byte of the digest.\<close>

definition hexdigest :: "128 word \<Rightarrow> string" where
  "hexdigest w = concat (map hex_byte (digest w))"

text \<open>
  \<^verbatim>\<open>m = md5_constructor(); m.update(key.encode('utf8')); return m.hexdigest()\<close>.
  The hash object is fresh in every call, so the result depends on the key alone.
\<close>

definition gen_key :: "md5_fn \<Rightarrow> string \<Rightarrow> string" where
  "gen_key md5 key = hexdigest (md5 (encode_utf8 key))"

text \<open>
  A stand-in digest for running the model on concrete inputs: the bytes read as a
  big-endian number, modulo \<open>2 ^ 128\<close>. The theorems below hold for every digest function;
  this one only instantiates them.
\<close>

definition sample_md5 :: md5_fn where
  "sample_md5 bs = foldl (\<lambda>acc b. acc * 256 + ucast b) 0 bs"

subsection \<open>Replica names\<close>

text \<open>Python's \<^verbatim>\<open>str(i)\<close> for a natural number: its decimal digits.\<close>

fun str_nat :: "nat \<Rightarrow> string" where
  "str_nat n = (if n < 10 then [char_of (48 + n)]
                else str_nat (n div 10) @ [char_of (48 + n mod 10)])"

declare str_nat.simps [simp del]

text \<open>\<^verbatim>\<open>'%s:%s' % (node, i)\<close>, with a node that prints as itself.\<close>

definition replica_name :: "node \<Rightarrow> nat \<Rightarrow> string" where
  "replica_name nd i = nd @ '':'' @ str_nat i"

definition replica_key :: "md5_fn \<Rightarrow> node \<Rightarrow> nat \<Rightarrow> string" where
  "replica_key md5 nd i = gen_key md5 (replica_name nd i)"

text \<open>\<^verbatim>\<open>range(0, self.replicas)\<close>: empty when \<^verbatim>\<open>replicas\<close> is zero or negative.\<close>

definition replica_range :: "hashring \<Rightarrow> nat list" where
  "replica_range s = [0..<nat (replicas s)]"

subsection \<open>\<^verbatim>\<open>add_node\<close>, \<^verbatim>\<open>remove_node\<close> and the constructor\<close>

text \<open>One pass of the loop body of \<^verbatim>\<open>add_node\<close>.\<close>

definition add_replica :: "md5_fn \<Rightarrow> node \<Rightarrow> hashring \<Rightarrow> nat \<Rightarrow> hashring" where
  "add_replica md5 nd s i =
     (let key = replica_key md5 nd i
      in s\<lparr>ring := (ring s)(key \<mapsto> nd), sorted_keys := sorted_keys s @ [key]\<rparr>)"

definition add_node :: "md5_fn \<Rightarrow> hashring \<Rightarrow> node \<Rightarrow> hashring" where
  "add_node md5 s nd =
     (let s' = foldl (add_replica md5 nd) s (replica_range s)
      in s'\<lparr>sorted_keys := sort (sorted_keys s')\<rparr>)"

text \<open>
  The loop of \<^verbatim>\<open>remove_node\<close>. \<^verbatim>\<open>del self.ring[key]\<close> raises \<^verbatim>\<open>KeyError\<close> on a missing
  key, \<^verbatim>\<open>self._sorted_keys.remove(key)\<close> removes the first occurrence and raises
  \<^verbatim>\<open>ValueError\<close> when there is none. Nothing is rolled back.
\<close>

fun remove_replicas :: "md5_fn \<Rightarrow> node \<Rightarrow> hashring \<Rightarrow> nat list \<Rightarrow> (error \<times> hashring) + hashring" where
  "remove_replicas md5 nd s [] = Inr s"
| "remove_replicas md5 nd s (i # is) =
     (let key = replica_key md5 nd i in
      if ring s key = None then Inl (KeyError key, s)
      else let s1 = s\<lparr>ring := (ring s)(key := None)\<rparr> in
        if key \<notin> set (sorted_keys s1) then Inl (ValueError key, s1)
        else remove_replicas md5 nd (s1\<lparr>sorted_keys := remove1 key (sorted_keys s1)\<rparr>) is)"

definition remove_node :: "md5_fn \<Rightarrow> hashring \<Rightarrow> node \<Rightarrow> (error \<times> hashring) + hashring" where
  "remove_node md5 s nd = remove_replicas md5 nd s (replica_range s)"

text \<open>\<^verbatim>\<open>__init__(self, nodes=None, replicas=3)\<close>; \<^verbatim>\<open>if nodes:\<close> skips \<^verbatim>\<open>None\<close> and the empty list.\<close>

definition hashring_init :: "md5_fn \<Rightarrow> node list option \<Rightarrow> int \<Rightarrow> hashring" where
  "hashring_init md5 nodes r =
     (let s = \<lparr>replicas = r, ring = Map.empty, sorted_keys = []\<rparr>
      in case nodes of None \<Rightarrow> s | Some ns \<Rightarrow> foldl (add_node md5) s ns)"

subsection \<open>Lookup\<close>

text \<open>\<^verbatim>\<open>self.ring[k]\<close>: \<^verbatim>\<open>KeyError\<close> on a missing key.\<close>

definition ring_at :: "hashring \<Rightarrow> string \<Rightarrow> error + node" where
  "ring_at s k = (case ring s k of None \<Rightarrow> Inl (KeyError k) | Some nd \<Rightarrow> Inr nd)"

text \<open>
  The \<^verbatim>\<open>for i in range(0, len(nodes))\<close> loop of \<^verbatim>\<open>get_node_pos\<close>, from index \<open>i\<close> on, over
  the entries that are left: the result of the \<^verbatim>\<open>return\<close> inside the loop, or \<open>None\<close>
  when the loop runs to its end.
\<close>

fun scan_keys :: "hashring \<Rightarrow> string \<Rightarrow> string list \<Rightarrow> nat \<Rightarrow> (error + node \<times> nat) option" where
  "scan_keys s key [] i = None"
| "scan_keys s key (n # ns) i =
     (if key \<le> n
      then Some (case ring_at s n of Inl e \<Rightarrow> Inl e | Inr nd \<Rightarrow> Inr (nd, i))
      else scan_keys s key ns (Suc i))"

text \<open>
  \<^verbatim>\<open>get_node_pos\<close> returns a pair: \<^verbatim>\<open>(None, None)\<close> on a ring with no points, a node and
  its index otherwise. \<^verbatim>\<open>nodes[0]\<close> raises \<^verbatim>\<open>IndexError\<close> on an empty list.
\<close>

definition get_node_pos :: "md5_fn \<Rightarrow> hashring \<Rightarrow> string \<Rightarrow> error + (node option \<times> nat option)" where
  "get_node_pos md5 s string_key =
     (if ring s = Map.empty then Inr (None, None)
      else let key = gen_key md5 string_key; nodes = sorted_keys s in
        case scan_keys s key nodes 0 of
          Some (Inl e) \<Rightarrow> Inl e
        | Some (Inr (nd, i)) \<Rightarrow> Inr (Some nd, Some i)
        | None \<Rightarrow>
            (case nodes of
               [] \<Rightarrow> Inl IndexError
             | n0 # _ \<Rightarrow> (case ring_at s n0 of Inl e \<Rightarrow> Inl e | Inr nd \<Rightarrow> Inr (Some nd, Some 0))))"

text \<open>\<^verbatim>\<open>get_node\<close>: the first component of what \<^verbatim>\<open>get_node_pos\<close> returns.\<close>

definition get_node :: "md5_fn \<Rightarrow> hashring \<Rightarrow> string \<Rightarrow> error + node option" where
  "get_node md5 s string_key =
     (case get_node_pos md5 s string_key of Inl e \<Rightarrow> Inl e | Inr p \<Rightarrow> Inr (fst p))"

subsection \<open>\<^verbatim>\<open>get_nodes\<close>\<close>

text \<open>
  \<^verbatim>\<open>get_nodes\<close> is a generator. Its control points are the states below, each with
  the local variables that are still read: before the first statement and before the call
  of \<^verbatim>\<open>get_node_pos\<close> (the key), inside the loop over the slice
  \<^verbatim>\<open>self._sorted_keys[pos:]\<close> (a copy, of which the entries not yet visited are kept),
  inside the \<^verbatim>\<open>for\<close> loop under \<^verbatim>\<open>while True\<close> (the index into the live list), and
  finished.
\<close>

datatype gen_state = GStart string | GLookup string | GSlice "string list" | GLoop nat | GDone

datatype yielded = YPair "node option" "nat option" | YNode node

datatype gen_result = Yield yielded gen_state | StopIteration | Raised error

text \<open>Calling \<^verbatim>\<open>get_nodes\<close> makes the generator and runs none of its body.\<close>

definition get_nodes :: "string \<Rightarrow> gen_state" where
  "get_nodes string_key = GStart string_key"

text \<open>
  One call of \<^verbatim>\<open>next\<close> on the generator, on the ring as it is at that call: the body
  runs to its next \<^verbatim>\<open>yield\<close>, to its end or to an exception. A call that never
  returns has the value \<open>None\<close>. The slice \<^verbatim>\<open>[None:]\<close> is the whole list.
\<close>

partial_function (option) gen_next :: "md5_fn \<Rightarrow> hashring \<Rightarrow> gen_state \<Rightarrow> gen_result option" where
  "gen_next md5 s g =
     (case g of
        GStart string_key \<Rightarrow>
          if ring s = Map.empty then Some (Yield (YPair None None) (GLookup string_key))
          else gen_next md5 s (GLookup string_key)
      | GLookup string_key \<Rightarrow>
          (case get_node_pos md5 s string_key of
             Inl e \<Rightarrow> Some (Raised e)
           | Inr (nd, pos) \<Rightarrow>
               gen_next md5 s
                 (GSlice (case pos of None \<Rightarrow> sorted_keys s | Some p \<Rightarrow> drop p (sorted_keys s))))
      | GSlice ks \<Rightarrow>
          (case ks of
             [] \<Rightarrow> gen_next md5 s (GLoop 0)
           | k # ks' \<Rightarrow>
               (case ring_at s k of
                  Inl e \<Rightarrow> Some (Raised e)
                | Inr nd \<Rightarrow> Some (Yield (YNode nd) (GSlice ks'))))
      | GLoop i \<Rightarrow>
          if i < length (sorted_keys s)
          then (case ring_at s (sorted_keys s ! i) of
                  Inl e \<Rightarrow> Some (Raised e)
                | Inr nd \<Rightarrow> Some (Yield (YNode nd) (GLoop (Suc i))))
          else gen_next md5 s (GLoop 0)
      | GDone \<Rightarrow> Some StopIteration)"

subsection \<open>Sequences of calls\<close>

text \<open>
  A caller's script: calls of \<^verbatim>\<open>add_node\<close> and \<^verbatim>\<open>remove_node\<close> on one ring, stopped by
  the first exception.
\<close>

datatype op = AddNode node | RemoveNode node

fun run_ops :: "md5_fn \<Rightarrow> hashring \<Rightarrow> op list \<Rightarrow> (error \<times> hashring) + hashring" where
  "run_ops md5 s [] = Inr s"
| "run_ops md5 s (AddNode nd # ops) = run_ops md5 (add_node md5 s nd) ops"
| "run_ops md5 s (RemoveNode nd # ops) =
     (case remove_node md5 s nd of Inl e \<Rightarrow> Inl e | Inr s' \<Rightarrow> run_ops md5 s' ops)"

text \<open>The keys of a node's replicas, in the order of the loops.\<close>

definition replica_keys :: "md5_fn \<Rightarrow> hashring \<Rightarrow> node \<Rightarrow> string list" where
  "replica_keys md5 s nd = map (replica_key md5 nd) (replica_range s)"

text \<open>
  A node is fresh on a ring when its replica keys are pairwise distinct and none of them
  is a key of \<^verbatim>\<open>self.ring\<close>: the node is not on the ring and nothing collides with it.
\<close>

definition fresh_node :: "md5_fn \<Rightarrow> hashring \<Rightarrow> node \<Rightarrow> bool" where
  "fresh_node md5 s nd \<longleftrightarrow>
     distinct (replica_keys md5 s nd) \<and> list_all (\<lambda>k. ring s k = None) (replica_keys md5 s nd)"

text \<open>Every \<^verbatim>\<open>add_node\<close> of the script adds a node that is fresh when it is added.\<close>

fun adds_fresh :: "md5_fn \<Rightarrow> hashring \<Rightarrow> op list \<Rightarrow> bool" where
  "adds_fresh md5 s [] = True"
| "adds_fresh md5 s (AddNode nd # ops) =
     (fresh_node md5 s nd \<and> adds_fresh md5 (add_node md5 s nd) ops)"
| "adds_fresh md5 s (RemoveNode nd # ops) =
     (case remove_node md5 s nd of Inl e \<Rightarrow> True | Inr s' \<Rightarrow> adds_fresh md5 s' ops)"

text \<open>The calls of \<^verbatim>\<open>add_node\<close> the constructor makes.\<close>

definition init_ops :: "node list option \<Rightarrow> op list" where
  "init_ops nodes = (case nodes of None \<Rightarrow> [] | Some ns \<Rightarrow> map AddNode ns)"

text \<open>
  The invariant of the data model: \<^verbatim>\<open>_sorted_keys\<close> is the ascending list, without
  repetition, of the keys of \<^verbatim>\<open>ring\<close>.
\<close>

definition ring_inv :: "hashring \<Rightarrow> bool" where
  "ring_inv s \<longleftrightarrow>
     sorted (sorted_keys s) \<and> distinct (sorted_keys s) \<and> set (sorted_keys s) = dom (ring s)"

subsection \<open>Hexadecimal strings as numbers\<close>

definition is_hex_char :: "char \<Rightarrow> bool" where
  "is_hex_char c =
     (let n = (of_char c :: nat) in (48 \<le> n \<and> n \<le> 57) \<or> (97 \<le> n \<and> n \<le> 102))"

definition digit_val :: "char \<Rightarrow> nat" where
  "digit_val c = (let n = (of_char c :: nat) in if n \<le> 57 then n - 48 else n - 87)"

fun hex_acc :: "nat \<Rightarrow> string \<Rightarrow> nat" where
  "hex_acc a [] = a"
| "hex_acc a (c # s) = hex_acc (16 * a + digit_val c) s"

text \<open>Python's \<^verbatim>\<open>int(s, 16)\<close> on a string of lowercase hexadecimal digits.\<close>

definition hex_value :: "string \<Rightarrow> nat" where
  "hex_value s = hex_acc 0 s"

section \<open>Keys are hexadecimal strings of fixed width\<close>

lemma of_char_hex_digit: "n < 16 \<Longrightarrow> (of_char (hex_digit n) :: nat) = (if n < 10 then 48 + n else 87 + n)"
  by (simp add: hex_digit_def)

lemma is_hex_char_hex_digit: "n < 16 \<Longrightarrow> is_hex_char (hex_digit n)"
  by (simp add: is_hex_char_def of_char_hex_digit Let_def)

lemma digit_val_hex_digit: "n < 16 \<Longrightarrow> digit_val (hex_digit n) = n"
  by (simp add: digit_val_def of_char_hex_digit Let_def)

lemma digit_val_less: "is_hex_char c \<Longrightarrow> digit_val c < 16"
  by (auto simp: is_hex_char_def digit_val_def Let_def)

lemma hex_char_less_iff:
  "is_hex_char x \<Longrightarrow> is_hex_char y \<Longrightarrow> x < y \<longleftrightarrow> digit_val x < digit_val y"
  by (auto simp: is_hex_char_def digit_val_def Let_def less_char_def)

lemma hex_char_eq_iff:
  assumes "is_hex_char x" "is_hex_char y"
  shows "x = y \<longleftrightarrow> digit_val x = digit_val y"
proof
  assume dv: "digit_val x = digit_val y"
  define a b where "a = (of_char x :: nat)" and "b = (of_char y :: nat)"
  have ha: "(48 \<le> a \<and> a \<le> 57) \<or> (97 \<le> a \<and> a \<le> 102)"
    and hb: "(48 \<le> b \<and> b \<le> 57) \<or> (97 \<le> b \<and> b \<le> 102)"
    using assms unfolding a_def b_def by (simp_all add: is_hex_char_def Let_def)
  have "(if a \<le> 57 then a - 48 else a - 87) = (if b \<le> 57 then b - 48 else b - 87)"
    using dv unfolding a_def b_def by (simp add: digit_val_def Let_def)
  with ha hb have "a = b"
    by (auto split: if_splits)
  then show "x = y"
    unfolding a_def b_def by simp
qed simp

lemma hex_value_Nil: "hex_value [] = 0"
  by (simp add: hex_value_def)

lemma hex_acc_shift: "hex_acc a s = a * 16 ^ length s + hex_acc 0 s"
proof (induction s arbitrary: a)
  case Nil
  then show ?case by simp
next
  case (Cons c s)
  have "hex_acc a (c # s) = (16 * a + digit_val c) * 16 ^ length s + hex_acc 0 s"
    using Cons.IH [of "16 * a + digit_val c"] by simp
  moreover have "hex_acc 0 (c # s) = digit_val c * 16 ^ length s + hex_acc 0 s"
    using Cons.IH [of "digit_val c"] by simp
  ultimately show ?case
    by (simp add: algebra_simps)
qed

lemma hex_value_Cons: "hex_value (c # s) = digit_val c * 16 ^ length s + hex_value s"
  using hex_acc_shift [of "digit_val c" s] by (simp add: hex_value_def)

lemma hex_value_append: "hex_value (s @ t) = hex_value s * 16 ^ length t + hex_value t"
  by (induction s) (simp_all add: hex_value_Nil hex_value_Cons power_add algebra_simps)

lemma hex_value_bound: "list_all is_hex_char s \<Longrightarrow> hex_value s < 16 ^ length s"
proof (induction s)
  case Nil
  then show ?case by (simp add: hex_value_Nil)
next
  case (Cons c s)
  then have d: "digit_val c < 16" and b: "hex_value s < 16 ^ length s"
    by (simp_all add: digit_val_less)
  have "digit_val c * 16 ^ length s + hex_value s < (digit_val c + 1) * 16 ^ length s"
    using b by (simp add: algebra_simps)
  also have "\<dots> \<le> 16 * 16 ^ length s"
    using d by (intro mult_right_mono) simp_all
  finally show ?case by (simp add: hex_value_Cons)
qed


lemma hex_le_iff:
  assumes "length s = length t" "list_all is_hex_char s" "list_all is_hex_char t"
  shows "s \<le> t \<longleftrightarrow> hex_value s \<le> hex_value t"
  using assms
proof (induction s t rule: list_induct2)
  case Nil
  then show ?case by simp
next
  case (Cons x xs y ys)
  then have hx: "is_hex_char x" and hy: "is_hex_char y"
    and bx: "hex_value xs < 16 ^ length ys" and by': "hex_value ys < 16 ^ length ys"
    and IH: "xs \<le> ys \<longleftrightarrow> hex_value xs \<le> hex_value ys"
    using hex_value_bound [of xs] hex_value_bound [of ys] by simp_all
  consider "digit_val x < digit_val y" | "digit_val x = digit_val y" | "digit_val y < digit_val x"
    by linarith
  then show ?case
  proof cases
    case 1
    then have "x < y" using hx hy by (simp add: hex_char_less_iff)
    moreover have "(digit_val x + 1) * 16 ^ length ys \<le> digit_val y * 16 ^ length ys"
      using 1 by (intro mult_right_mono) simp_all
    then have "digit_val x * 16 ^ length ys + hex_value xs \<le> digit_val y * 16 ^ length ys + hex_value ys"
      using bx by (simp add: algebra_simps)
    ultimately show ?thesis
      using Cons.hyps by (simp add: hex_value_Cons)
  next
    case 2
    then have "x = y" using hx hy by (simp add: hex_char_eq_iff)
    then show ?thesis
      using Cons.hyps IH by (simp add: hex_value_Cons)
  next
    case 3
    then have "y < x" using hx hy by (simp add: hex_char_less_iff)
    moreover have "(digit_val y + 1) * 16 ^ length ys \<le> digit_val x * 16 ^ length ys"
      using 3 by (intro mult_right_mono) simp_all
    then have "\<not> digit_val x * 16 ^ length ys + hex_value xs \<le> digit_val y * 16 ^ length ys + hex_value ys"
      using by' by (simp add: algebra_simps)
    ultimately show ?thesis
      using Cons.hyps by (auto simp: hex_value_Cons)
  qed
qed

lemma unat_byte_of_nat: "unat (of_nat (v mod 256) :: byte) = v mod 256"
  by (simp add: unat_of_nat)

lemma length_be_bytes: "length (be_bytes n v) = n"
  by (induction n arbitrary: v) simp_all

lemma hex_byte_props:
  "length (hex_byte b) = 2" "list_all is_hex_char (hex_byte b)" "hex_value (hex_byte b) = unat b"
proof -
  have lt: "unat b < 256" using unsigned_less [of b] by simp
  then have d: "unat b div 16 < 16" by simp
  show "length (hex_byte b) = 2" by (simp add: hex_byte_def)
  show "list_all is_hex_char (hex_byte b)"
    using d by (simp add: hex_byte_def is_hex_char_hex_digit)
  show "hex_value (hex_byte b) = unat b"
    using d by (simp add: hex_byte_def hex_value_Cons hex_value_Nil digit_val_hex_digit)
qed

lemma hex_bytes_props:
  "length (concat (map hex_byte bs)) = 2 * length bs"
  "list_all is_hex_char (concat (map hex_byte bs))"
  by (induction bs) (simp_all add: hex_byte_props)

lemma hex_value_be_bytes:
  "hex_value (concat (map hex_byte (be_bytes n v))) = v mod 256 ^ n"
proof (induction n arbitrary: v)
  case 0
  then show ?case by (simp add: hex_value_Nil)
next
  case (Suc n)
  have "v mod (256 * 256 ^ n) = 256 * (v div 256 mod 256 ^ n) + v mod 256"
    by (rule mod_mult2_eq)
  then show ?case
    by (simp add: hex_value_append Suc.IH hex_byte_props unat_byte_of_nat)
qed

lemma length_hexdigest: "length (hexdigest w) = 32"
  by (simp add: hexdigest_def digest_def hex_bytes_props length_be_bytes)

lemma hex_chars_hexdigest: "list_all is_hex_char (hexdigest w)"
  by (simp add: hexdigest_def hex_bytes_props)

lemma hex_value_hexdigest: "hex_value (hexdigest w) = unat w"
proof -
  have "unat w < 2 ^ 128" using unsigned_less [of w] by simp
  then have "unat w mod 256 ^ 16 = unat w" by simp
  then show ?thesis by (simp add: hexdigest_def digest_def hex_value_be_bytes)
qed

lemma hexdigest_le_iff: "hexdigest a \<le> hexdigest b \<longleftrightarrow> a \<le> b"
  using hex_le_iff [of "hexdigest a" "hexdigest b"]
  by (simp add: length_hexdigest hex_chars_hexdigest hex_value_hexdigest word_le_nat_alt)

lemma hexdigest_eq_iff: "hexdigest a = hexdigest b \<longleftrightarrow> a = b"
proof
  assume "hexdigest a = hexdigest b"
  then have "unat a = unat b"
    by (metis hex_value_hexdigest)
  then show "a = b"
    using word_unat_eq_iff by blast
qed simp

lemma hexdigest_less_iff: "hexdigest a < hexdigest b \<longleftrightarrow> a < b"
  by (simp add: less_le hexdigest_le_iff hexdigest_eq_iff)

section \<open>Lookup on a ring with no points\<close>

text \<open>
  C2. For every string key, when the ring has no points, \<^verbatim>\<open>get_node_pos\<close> returns the
  pair \<^verbatim>\<open>(None, None)\<close> and \<^verbatim>\<open>get_node\<close> returns \<^verbatim>\<open>None\<close>; neither raises.
\<close>

theorem empty_ring_lookup:
  assumes "ring s = Map.empty"
  shows "get_node_pos md5 s k = Inr (None, None) \<and> get_node md5 s k = Inr None"
  using assms by (simp add: get_node_pos_def get_node_def)

theorem empty_ring_lookup_witness:
  "get_node_pos sample_md5 (hashring_init sample_md5 None 3) ''my_key'' = Inr (None, None)
   \<and> get_node sample_md5 (hashring_init sample_md5 None 3) ''my_key'' = Inr None"
  using empty_ring_lookup [of "hashring_init sample_md5 None 3" sample_md5 "''my_key''"]
  by (simp add: hashring_init_def)

section \<open>The effect of add_node and remove_node\<close>

lemma foldl_add_replica_replicas:
  "replicas (foldl (add_replica md5 nd) s is) = replicas s"
  by (induction "is" arbitrary: s) (simp_all add: add_replica_def Let_def)

lemma foldl_add_replica_sorted_keys:
  "sorted_keys (foldl (add_replica md5 nd) s is) = sorted_keys s @ map (replica_key md5 nd) is"
  by (induction "is" arbitrary: s) (simp_all add: add_replica_def Let_def)

lemma foldl_add_replica_ring:
  "ring (foldl (add_replica md5 nd) s is) k =
     (if k \<in> set (map (replica_key md5 nd) is) then Some nd else ring s k)"
  by (induction "is" arbitrary: s) (auto simp: add_replica_def Let_def)

lemma replica_range_add_node: "replica_range (add_node md5 s nd) = replica_range s"
  by (simp add: replica_range_def add_node_def Let_def foldl_add_replica_replicas)

lemma replicas_add_node: "replicas (add_node md5 s nd) = replicas s"
  by (simp add: add_node_def Let_def foldl_add_replica_replicas)

lemma sorted_keys_add_node:
  "sorted_keys (add_node md5 s nd) = sort (sorted_keys s @ replica_keys md5 s nd)"
  by (simp add: add_node_def Let_def foldl_add_replica_sorted_keys replica_keys_def)

lemma ring_add_node:
  "ring (add_node md5 s nd) k = (if k \<in> set (replica_keys md5 s nd) then Some nd else ring s k)"
  by (simp add: add_node_def Let_def foldl_add_replica_ring replica_keys_def)

lemma dom_ring_add_node:
  "dom (ring (add_node md5 s nd)) = dom (ring s) \<union> set (replica_keys md5 s nd)"
  by (auto simp: ring_add_node dom_def)

lemma ring_inv_add_node:
  assumes "ring_inv s" "fresh_node md5 s nd"
  shows "ring_inv (add_node md5 s nd)"
proof -
  have disj: "set (sorted_keys s) \<inter> set (replica_keys md5 s nd) = {}"
    using assms by (auto simp: ring_inv_def fresh_node_def list_all_iff)
  show ?thesis
    using assms disj
    by (simp add: ring_inv_def fresh_node_def sorted_keys_add_node dom_ring_add_node)
qed

lemma remove_replicas_replicas:
  "remove_replicas md5 nd s is = Inr s' \<Longrightarrow> replicas s' = replicas s"
  by (induction "is" arbitrary: s) (auto simp: Let_def split: if_splits)

lemma ring_inv_remove_replicas:
  "ring_inv s \<Longrightarrow> remove_replicas md5 nd s is = Inr s' \<Longrightarrow> ring_inv s'"
proof (induction "is" arbitrary: s)
  case Nil
  then show ?case by simp
next
  case (Cons i "is")
  define key where "key = replica_key md5 nd i"
  define s2 where "s2 = s\<lparr>ring := (ring s)(key := None), sorted_keys := remove1 key (sorted_keys s)\<rparr>"
  from Cons.prems(2) have run: "remove_replicas md5 nd s2 is = Inr s'"
    by (auto simp: Let_def key_def s2_def split: if_splits)
  have "ring_inv s2"
    using Cons.prems(1) by (auto simp: ring_inv_def s2_def sorted_remove1)
  then show ?case
    using run by (rule Cons.IH)
qed

lemma remove_replicas_raises:
  "\<exists>i \<in> set is. ring s (replica_key md5 nd i) = None \<Longrightarrow> isl (remove_replicas md5 nd s is)"
proof (induction "is" arbitrary: s)
  case Nil
  then show ?case by simp
next
  case (Cons i "is")
  define key where "key = replica_key md5 nd i"
  show ?case
  proof (cases "ring s key = None \<or> key \<notin> set (sorted_keys s)")
    case True
    then show ?thesis by (auto simp: Let_def key_def)
  next
    case False
    define s2 where "s2 = s\<lparr>ring := (ring s)(key := None), sorted_keys := remove1 key (sorted_keys s)\<rparr>"
    from False Cons.prems have "\<exists>j \<in> set is. ring s2 (replica_key md5 nd j) = None"
      by (auto simp: s2_def key_def)
    then have "isl (remove_replicas md5 nd s2 is)"
      by (rule Cons.IH)
    then show ?thesis
      using False by (simp add: Let_def key_def s2_def)
  qed
qed

lemma remove_replicas_succeeds:
  assumes "distinct (map (replica_key md5 nd) is)"
    and "\<And>i. i \<in> set is \<Longrightarrow> ring s (replica_key md5 nd i) \<noteq> None"
    and "\<And>i. i \<in> set is \<Longrightarrow> replica_key md5 nd i \<in> set (sorted_keys s)"
  shows "\<exists>s'. remove_replicas md5 nd s is = Inr s'
           \<and> (\<forall>k. ring s' k = (if k \<in> set (map (replica_key md5 nd) is) then None else ring s k))"
  using assms
proof (induction "is" arbitrary: s)
  case Nil
  then show ?case by simp
next
  case (Cons i "is")
  define key where "key = replica_key md5 nd i"
  define s2 where "s2 = s\<lparr>ring := (ring s)(key := None), sorted_keys := remove1 key (sorted_keys s)\<rparr>"
  have notin: "key \<notin> set (map (replica_key md5 nd) is)"
    using Cons.prems(1) by (simp add: key_def)
  have step: "remove_replicas md5 nd s (i # is) = remove_replicas md5 nd s2 is"
    using Cons.prems(2) [of i] Cons.prems(3) [of i] by (auto simp: Let_def key_def s2_def)
  have "\<exists>s'. remove_replicas md5 nd s2 is = Inr s'
           \<and> (\<forall>k. ring s' k = (if k \<in> set (map (replica_key md5 nd) is) then None else ring s2 k))"
  proof (rule Cons.IH)
    show "distinct (map (replica_key md5 nd) is)"
      using Cons.prems(1) by simp
    fix j assume j: "j \<in> set is"
    then have ne: "replica_key md5 nd j \<noteq> key"
      using notin by auto
    show "ring s2 (replica_key md5 nd j) \<noteq> None"
      using Cons.prems(2) [of j] j ne by (simp add: s2_def)
    show "replica_key md5 nd j \<in> set (sorted_keys s2)"
      using Cons.prems(3) [of j] j ne by (simp add: s2_def)
  qed
  then obtain s' where run: "remove_replicas md5 nd s2 is = Inr s'"
    and r: "\<And>k. ring s' k = (if k \<in> set (map (replica_key md5 nd) is) then None else ring s2 k)"
    by blast
  have "\<forall>k. ring s' k = (if k \<in> set (map (replica_key md5 nd) (i # is)) then None else ring s k)"
    by (auto simp: r s2_def key_def)
  with run step show ?case
    by simp
qed

section \<open>Helper facts\<close>

lemma replica_range_Cons:
  "0 < replicas s \<Longrightarrow> replica_range s = 0 # [1..<nat (replicas s)]"
  by (simp add: replica_range_def upt_conv_Cons)

lemma set_replica_keys:
  "set (replica_keys md5 s nd) = (\<lambda>i. gen_key md5 (replica_name nd i)) ` {i. i < nat (replicas s)}"
  by (auto simp: replica_keys_def replica_range_def replica_key_def)

lemma length_replica_keys: "length (replica_keys md5 s nd) = nat (replicas s)"
  by (simp add: replica_keys_def replica_range_def)

lemma replica_keys_add_node: "replica_keys md5 (add_node md5 s nd) nd' = replica_keys md5 s nd'"
  by (simp add: replica_keys_def replica_range_add_node)

lemma count_list_insort: "count_list (insort x xs) k = count_list (x # xs) k"
  by (induction xs) auto

lemma count_list_sort: "count_list (sort xs) k = count_list xs k"
  by (induction xs) (simp_all add: count_list_insort)

lemma count_list_distinct: "distinct xs \<Longrightarrow> count_list xs k = (if k \<in> set xs then 1 else 0)"
  by (induction xs) auto

subsection \<open>Concrete runs with the stand-in digest\<close>

lemma str_nat_0: "str_nat 0 = ''0''"
  by code_simp

lemma str_nat_1: "str_nat (Suc 0) = ''1''"
  by code_simp

lemma replica_name_0: "replica_name nd 0 = nd @ '':0''"
  by (simp add: replica_name_def str_nat_0)

lemma replica_name_1: "replica_name nd (Suc 0) = nd @ '':1''"
  by (simp add: replica_name_def str_nat_1)

lemma sample_keys:
  "gen_key sample_md5 ''A:0'' = hexdigest 4274736"
  "gen_key sample_md5 ''A:1'' = hexdigest 4274737"
  "gen_key sample_md5 ''B:0'' = hexdigest 4340272"
  "gen_key sample_md5 ''B:1'' = hexdigest 4340273"
  by (simp_all add: gen_key_def encode_utf8_def sample_md5_def)

lemma upt_2: "[0..<2] = [0, Suc 0]"
  by (simp add: upt_rec numeral_2_eq_2)

lemmas run_simps = upt_2
  hashring_init_def add_node_def add_replica_def remove_node_def replica_range_def
  replica_key_def replica_name_0 replica_name_1 sample_keys Let_def
  hexdigest_le_iff hexdigest_eq_iff

lemma ring_B1:
  "hashring_init sample_md5 (Some [''B'']) 1 =
     \<lparr>replicas = 1, ring = [hexdigest 4340272 \<mapsto> ''B''], sorted_keys = [hexdigest 4340272]\<rparr>"
  by (simp add: run_simps)

lemma ring_A2:
  "hashring_init sample_md5 (Some [''A'']) 2 =
     \<lparr>replicas = 2, ring = [hexdigest 4274736 \<mapsto> ''A'', hexdigest 4274737 \<mapsto> ''A''],
      sorted_keys = [hexdigest 4274736, hexdigest 4274737]\<rparr>"
  by (simp add: run_simps)

lemma ring_B2:
  "hashring_init sample_md5 (Some [''B'']) 2 =
     \<lparr>replicas = 2, ring = [hexdigest 4340272 \<mapsto> ''B'', hexdigest 4340273 \<mapsto> ''B''],
      sorted_keys = [hexdigest 4340272, hexdigest 4340273]\<rparr>"
  by (simp add: run_simps)

lemma ring_AB1:
  "hashring_init sample_md5 (Some [''A'', ''B'']) 1 =
     \<lparr>replicas = 1, ring = [hexdigest 4274736 \<mapsto> ''A'', hexdigest 4340272 \<mapsto> ''B''],
      sorted_keys = [hexdigest 4274736, hexdigest 4340272]\<rparr>"
  by (simp add: run_simps)

section \<open>Removing, adding and looking up nodes\<close>

text \<open>
  C3. For every ring and every node \<open>X\<close> of which some replica key
  \<^verbatim>\<open>gen_key('X:i')\<close>, \<open>i\<close> in \<^verbatim>\<open>range(0, replicas)\<close>, is not a key of \<^verbatim>\<open>self.ring\<close>,
  \<^verbatim>\<open>remove_node(X)\<close> raises: it never returns normally.
\<close>

theorem remove_unknown_node_raises:
  assumes "i < nat (replicas s)" and "ring s (replica_key md5 X i) = None"
  shows "\<exists>e s'. remove_node md5 s X = Inl (e, s')"
proof -
  have "\<exists>j \<in> set (replica_range s). ring s (replica_key md5 X j) = None"
    using assms by (auto simp: replica_range_def)
  then have "isl (remove_replicas md5 X s (replica_range s))"
    by (rule remove_replicas_raises)
  then show ?thesis
    by (cases "remove_replicas md5 X s (replica_range s)") (auto simp: remove_node_def)
qed

theorem remove_unknown_node_raises_witness:
  "(0::nat) < nat (replicas (hashring_init sample_md5 (Some [''B'']) 1))
   \<and> ring (hashring_init sample_md5 (Some [''B'']) 1) (replica_key sample_md5 ''A'' 0) = None
   \<and> (\<exists>e s'. remove_node sample_md5 (hashring_init sample_md5 (Some [''B'']) 1) ''A'' = Inl (e, s'))"
proof -
  let ?s = "hashring_init sample_md5 (Some [''B'']) 1"
  have h1: "(0::nat) < nat (replicas ?s)"
    by (simp add: ring_B1)
  have h2: "ring ?s (replica_key sample_md5 ''A'' 0) = None"
    by (simp add: ring_B1 replica_key_def replica_name_0 sample_keys hexdigest_eq_iff)
  from h1 h2 remove_unknown_node_raises [OF h1 h2] show ?thesis
    by blast
qed

text \<open>
  C9. On a ring with at least one replica per node, when the key of replica 0 of \<open>X\<close>
  is not a key of \<^verbatim>\<open>self.ring\<close>, \<^verbatim>\<open>remove_node(X)\<close> raises \<^verbatim>\<open>KeyError\<close> at its first
  \<^verbatim>\<open>del\<close>, and the ring it leaves is the ring it was given.
\<close>

theorem remove_unknown_node_unchanged:
  assumes "0 < replicas s" and "ring s (replica_key md5 X 0) = None"
  shows "remove_node md5 s X = Inl (KeyError (replica_key md5 X 0), s)"
  using assms by (simp add: remove_node_def replica_range_Cons)

theorem remove_unknown_node_unchanged_witness:
  "0 < replicas (hashring_init sample_md5 (Some [''B'']) 1)
   \<and> ring (hashring_init sample_md5 (Some [''B'']) 1) (replica_key sample_md5 ''A'' 0) = None
   \<and> remove_node sample_md5 (hashring_init sample_md5 (Some [''B'']) 1) ''A''
       = Inl (KeyError (replica_key sample_md5 ''A'' 0), hashring_init sample_md5 (Some [''B'']) 1)"
proof -
  let ?s = "hashring_init sample_md5 (Some [''B'']) 1"
  have h1: "0 < replicas ?s"
    by (simp add: ring_B1)
  have h2: "ring ?s (replica_key sample_md5 ''A'' 0) = None"
    by (simp add: ring_B1 replica_key_def replica_name_0 sample_keys hexdigest_eq_iff)
  from h1 h2 remove_unknown_node_unchanged [OF h1 h2] show ?thesis
    by blast
qed

text \<open>
  C5. When no point of the ring maps to \<open>X\<close> and the replica keys of \<open>X\<close> are pairwise
  distinct, then after \<^verbatim>\<open>add_node(X)\<close> the points that map to \<open>X\<close> are exactly the keys
  \<^verbatim>\<open>gen_key('X:i')\<close> for \<open>i\<close> in \<^verbatim>\<open>range(0, replicas)\<close>, there are \<^verbatim>\<open>replicas\<close> of them, and
  a following \<^verbatim>\<open>remove_node(X)\<close> returns normally and leaves no point that maps to \<open>X\<close>.
\<close>

theorem add_then_remove_points:
  assumes absent: "\<forall>k. ring s k \<noteq> Some X"
    and nocoll: "distinct (replica_keys md5 s X)"
  shows "{k. ring (add_node md5 s X) k = Some X}
           = (\<lambda>i. gen_key md5 (replica_name X i)) ` {i. i < nat (replicas s)}
       \<and> card {k. ring (add_node md5 s X) k = Some X} = nat (replicas s)
       \<and> (\<exists>s'. remove_node md5 (add_node md5 s X) X = Inr s' \<and> {k. ring s' k = Some X} = {})"
proof -
  let ?s1 = "add_node md5 s X"
  have pts: "{k. ring ?s1 k = Some X} = set (replica_keys md5 s X)"
    using absent by (auto simp: ring_add_node)
  have "card (set (replica_keys md5 s X)) = nat (replicas s)"
    using nocoll by (simp add: distinct_card length_replica_keys)
  moreover
  have "\<exists>s'. remove_replicas md5 X ?s1 (replica_range ?s1) = Inr s'
           \<and> (\<forall>k. ring s' k =
                 (if k \<in> set (map (replica_key md5 X) (replica_range ?s1)) then None else ring ?s1 k))"
  proof (rule remove_replicas_succeeds)
    show "distinct (map (replica_key md5 X) (replica_range ?s1))"
      using nocoll by (simp add: replica_keys_def replica_range_add_node)
    fix i assume "i \<in> set (replica_range ?s1)"
    then have mem: "replica_key md5 X i \<in> set (replica_keys md5 s X)"
      by (simp add: replica_keys_def replica_range_add_node)
    then show "ring ?s1 (replica_key md5 X i) \<noteq> None"
      by (simp add: ring_add_node)
    from mem show "replica_key md5 X i \<in> set (sorted_keys ?s1)"
      by (simp add: sorted_keys_add_node)
  qed
  then obtain s' where run: "remove_node md5 ?s1 X = Inr s'"
    and r: "\<And>k. ring s' k = (if k \<in> set (replica_keys md5 s X) then None else ring ?s1 k)"
    by (auto simp: remove_node_def replica_keys_def replica_range_add_node)
  have "{k. ring s' k = Some X} = {}"
    using absent by (auto simp: r ring_add_node)
  ultimately show ?thesis
    using pts run by (simp add: set_replica_keys)
qed

theorem add_then_remove_points_witness:
  "(\<forall>k. ring (hashring_init sample_md5 (Some [''B'']) 2) k \<noteq> Some ''A'')
   \<and> distinct (replica_keys sample_md5 (hashring_init sample_md5 (Some [''B'']) 2) ''A'')
   \<and> card {k. ring (add_node sample_md5 (hashring_init sample_md5 (Some [''B'']) 2) ''A'') k = Some ''A''} = 2
   \<and> (\<exists>s'. remove_node sample_md5
               (add_node sample_md5 (hashring_init sample_md5 (Some [''B'']) 2) ''A'') ''A'' = Inr s'
             \<and> {k. ring s' k = Some ''A''} = {})"
proof -
  let ?s = "hashring_init sample_md5 (Some [''B'']) 2"
  have h1: "\<forall>k. ring ?s k \<noteq> Some ''A''"
    by (simp add: ring_B2)
  have h2: "distinct (replica_keys sample_md5 ?s ''A'')"
    by (simp add: ring_B2 replica_keys_def run_simps)
  have r: "nat (replicas ?s) = 2"
    by (simp add: ring_B2)
  from h1 h2 add_then_remove_points [OF h1 h2] show ?thesis
    unfolding r by blast
qed

text \<open>
  C10. \<^verbatim>\<open>add_node\<close> has no raising step (it is a total function of the model). When \<open>X\<close>
  is on a ring that satisfies the invariant (every replica key of \<open>X\<close> maps to \<open>X\<close>, the
  keys pairwise distinct, at least one replica), \<^verbatim>\<open>add_node(X)\<close> leaves \<^verbatim>\<open>self.ring\<close> as
  it is, makes \<^verbatim>\<open>_sorted_keys\<close> longer by \<^verbatim>\<open>replicas\<close> entries, every replica key of
  \<open>X\<close> then occurs exactly twice in \<^verbatim>\<open>_sorted_keys\<close>, and the invariant is lost.
\<close>

theorem add_present_node_duplicates:
  assumes inv: "ring_inv s"
    and present: "list_all (\<lambda>k. ring s k = Some X) (replica_keys md5 s X)"
    and nocoll: "distinct (replica_keys md5 s X)"
    and pos: "0 < replicas s"
  shows "ring (add_node md5 s X) = ring s
       \<and> length (sorted_keys (add_node md5 s X)) = length (sorted_keys s) + nat (replicas s)
       \<and> list_all (\<lambda>k. count_list (sorted_keys (add_node md5 s X)) k = 2) (replica_keys md5 s X)
       \<and> \<not> ring_inv (add_node md5 s X)"
proof -
  let ?s1 = "add_node md5 s X" and ?ks = "replica_keys md5 s X"
  have sub: "set ?ks \<subseteq> set (sorted_keys s)"
    using inv present by (auto simp: ring_inv_def list_all_iff)
  have r: "ring ?s1 = ring s"
    using present by (auto simp: ring_add_node list_all_iff)
  have l: "length (sorted_keys ?s1) = length (sorted_keys s) + nat (replicas s)"
    by (simp add: sorted_keys_add_node length_replica_keys)
  have c: "count_list (sorted_keys ?s1) k = 2" if "k \<in> set ?ks" for k
    using that sub inv nocoll
    by (auto simp: sorted_keys_add_node count_list_sort count_list_distinct ring_inv_def)
  have "?ks \<noteq> []"
    using pos length_replica_keys [of md5 s X] by auto
  then obtain k where k: "k \<in> set ?ks"
    by (cases ?ks) auto
  have "\<not> distinct (sorted_keys ?s1)"
  proof
    assume "distinct (sorted_keys ?s1)"
    then have "count_list (sorted_keys ?s1) k \<le> 1"
      by (simp add: count_list_distinct)
    with c [OF k] show False by simp
  qed
  then have "\<not> ring_inv ?s1"
    by (simp add: ring_inv_def)
  with r l c show ?thesis
    by (simp add: list_all_iff)
qed

theorem add_present_node_duplicates_witness:
  "ring_inv (hashring_init sample_md5 (Some [''A'']) 2)
   \<and> list_all (\<lambda>k. ring (hashring_init sample_md5 (Some [''A'']) 2) k = Some ''A'')
        (replica_keys sample_md5 (hashring_init sample_md5 (Some [''A'']) 2) ''A'')
   \<and> distinct (replica_keys sample_md5 (hashring_init sample_md5 (Some [''A'']) 2) ''A'')
   \<and> 0 < replicas (hashring_init sample_md5 (Some [''A'']) 2)
   \<and> ring (add_node sample_md5 (hashring_init sample_md5 (Some [''A'']) 2) ''A'')
       = ring (hashring_init sample_md5 (Some [''A'']) 2)
   \<and> length (sorted_keys (add_node sample_md5 (hashring_init sample_md5 (Some [''A'']) 2) ''A'')) = 4
   \<and> \<not> ring_inv (add_node sample_md5 (hashring_init sample_md5 (Some [''A'']) 2) ''A'')"
proof -
  let ?s = "hashring_init sample_md5 (Some [''A'']) 2"
  have h1: "ring_inv ?s"
    by (auto simp: ring_A2 ring_inv_def hexdigest_le_iff hexdigest_eq_iff)
  have h2: "list_all (\<lambda>k. ring ?s k = Some ''A'') (replica_keys sample_md5 ?s ''A'')"
    by (simp add: ring_A2 replica_keys_def run_simps)
  have h3: "distinct (replica_keys sample_md5 ?s ''A'')"
    by (simp add: ring_A2 replica_keys_def run_simps)
  have h4: "0 < replicas ?s"
    by (simp add: ring_A2)
  have l: "length (sorted_keys ?s) + nat (replicas ?s) = 4"
    by (simp add: ring_A2)
  from h1 h2 h3 h4 add_present_node_duplicates [OF h1 h2 h3 h4] show ?thesis
    unfolding l by blast
qed

text \<open>
  C8 (the lookup and \<^verbatim>\<open>gen_key\<close> are deterministic) has no theorem of its own.
  \<^verbatim>\<open>get_node_pos\<close>, \<^verbatim>\<open>get_node\<close> and \<^verbatim>\<open>gen_key\<close> are functions of the model, so that
  equal rings and equal keys give equal results holds by the logic, of any function, and
  says nothing of the code. What the claim excludes (hidden state, a result that depends
  on the history of calls, a digest that changes between runs) lies in the Python runtime
  and the hash library.
\<close>

section \<open>The form of the keys, and the generator on a ring with no points\<close>

text \<open>
  C7. \<^verbatim>\<open>gen_key\<close> maps every string to a value of fixed width derived from the 128-bit
  digest and comparable by the ordinary ordering: the numeral of the digest in exactly 32
  lowercase hexadecimal digits (\<^verbatim>\<open>m.hexdigest()\<close>), which denotes the digest, a number
  below \<open>2 ^ 128\<close>, and on which Python's ordering is the ordering of the numbers denoted.
  These are the values that \<^verbatim>\<open>add_node\<close> stores as keys of \<^verbatim>\<open>self.ring\<close> and appends to
  \<^verbatim>\<open>_sorted_keys\<close>, and that \<^verbatim>\<open>get_node_pos\<close> compares.
\<close>

theorem gen_key_hex_form:
  "length (gen_key md5 k) = 32
   \<and> list_all is_hex_char (gen_key md5 k)
   \<and> hex_value (gen_key md5 k) = unat (md5 (encode_utf8 k))
   \<and> hex_value (gen_key md5 k) < 2 ^ 128
   \<and> (gen_key md5 k \<le> gen_key md5 k') = (hex_value (gen_key md5 k) \<le> hex_value (gen_key md5 k'))
   \<and> dom (ring (add_node md5 s nd))
       = dom (ring s) \<union> (\<lambda>i. gen_key md5 (replica_name nd i)) ` {i. i < nat (replicas s)}
   \<and> set (sorted_keys (add_node md5 s nd))
       = set (sorted_keys s) \<union> (\<lambda>i. gen_key md5 (replica_name nd i)) ` {i. i < nat (replicas s)}"
proof -
  have "unat (md5 (encode_utf8 k)) < 2 ^ 128"
    using unsigned_less [of "md5 (encode_utf8 k)"] by simp
  then have "length (gen_key md5 k) = 32
      \<and> list_all is_hex_char (gen_key md5 k)
      \<and> hex_value (gen_key md5 k) = unat (md5 (encode_utf8 k))
      \<and> hex_value (gen_key md5 k) < 2 ^ 128
      \<and> (gen_key md5 k \<le> gen_key md5 k') = (hex_value (gen_key md5 k) \<le> hex_value (gen_key md5 k'))"
    by (simp add: gen_key_def length_hexdigest hex_chars_hexdigest hex_value_hexdigest
        hexdigest_le_iff word_le_nat_alt)
  moreover have "dom (ring (add_node md5 s nd))
      = dom (ring s) \<union> (\<lambda>i. gen_key md5 (replica_name nd i)) ` {i. i < nat (replicas s)}"
    by (simp add: dom_ring_add_node set_replica_keys)
  moreover have "set (sorted_keys (add_node md5 s nd))
      = set (sorted_keys s) \<union> (\<lambda>i. gen_key md5 (replica_name nd i)) ` {i. i < nat (replicas s)}"
    by (simp add: sorted_keys_add_node set_replica_keys)
  ultimately show ?thesis
    by blast
qed

lemma gen_next_spins_aux:
  "gen_next md5 s g = Some r \<Longrightarrow>
     ring s = Map.empty \<longrightarrow> sorted_keys s = [] \<longrightarrow>
       ((\<forall>k. g \<noteq> GLookup k) \<and> g \<noteq> GSlice [] \<and> (\<forall>i. g \<noteq> GLoop i))"
  apply (erule gen_next.raw_induct [rotated])
  subgoal premises prems for f md5 s g r
  proof (intro impI)
    assume e: "ring s = Map.empty" and n: "sorted_keys s = []"
    have IH: "(\<forall>k. g' \<noteq> GLookup k) \<and> g' \<noteq> GSlice [] \<and> (\<forall>i. g' \<noteq> GLoop i)"
      if "f md5 s g' = Some r'" for g' r'
      using prems(1) [OF that] e n by blast
    show "(\<forall>k. g \<noteq> GLookup k) \<and> g \<noteq> GSlice [] \<and> (\<forall>i. g \<noteq> GLoop i)"
    proof (cases g)
      case (GLookup k)
      with prems(2) e n have "f md5 s (GSlice []) = Some r"
        by (simp add: get_node_pos_def)
      from IH [OF this] show ?thesis by blast
    next
      case (GSlice ks)
      show ?thesis
      proof (cases ks)
        case Nil
        with prems(2) GSlice have "f md5 s (GLoop 0) = Some r"
          by simp
        from IH [OF this] show ?thesis by blast
      next
        case (Cons a list)
        with GSlice show ?thesis by simp
      qed
    next
      case (GLoop i)
      with prems(2) n have "f md5 s (GLoop 0) = Some r"
        by simp
      from IH [OF this] show ?thesis by blast
    qed simp_all
  qed
  done

lemma gen_next_spins:
  assumes "gen_next md5 s g = Some r" and "ring s = Map.empty" and "sorted_keys s = []"
  shows "(\<forall>k. g \<noteq> GLookup k) \<and> g \<noteq> GSlice [] \<and> (\<forall>i. g \<noteq> GLoop i)"
  using gen_next_spins_aux [OF assms(1)] assms(2,3) by blast

text \<open>
  C6. On a ring made with no nodes, the first \<^verbatim>\<open>next\<close> on \<^verbatim>\<open>get_nodes(key)\<close> yields the
  pair \<^verbatim>\<open>(None, None)\<close>, and the second \<^verbatim>\<open>next\<close> never returns: after the \<^verbatim>\<open>yield\<close> the
  body goes on to \<^verbatim>\<open>while True\<close> over an empty \<^verbatim>\<open>_sorted_keys\<close>. The generator is not
  exhausted after its first element.
\<close>

theorem get_nodes_empty_ring:
  "gen_next md5 (hashring_init md5 None r) (get_nodes k)
     = Some (Yield (YPair None None) (GLookup k))
   \<and> gen_next md5 (hashring_init md5 None r) (GLookup k) = None"
proof -
  let ?s = "hashring_init md5 None r"
  have e: "ring ?s = Map.empty" and n: "sorted_keys ?s = []"
    by (simp_all add: hashring_init_def)
  have "gen_next md5 ?s (get_nodes k) = Some (Yield (YPair None None) (GLookup k))"
    by (subst gen_next.simps) (simp add: get_nodes_def e)
  moreover have "gen_next md5 ?s (GLookup k) = None"
  proof (cases "gen_next md5 ?s (GLookup k)")
    case (Some res)
    from gen_next_spins [OF this e n] show ?thesis by simp
  qed simp
  ultimately show ?thesis by simp
qed

section \<open>The invariant of the sorted keys\<close>

lemma ring_inv_empty: "ring_inv \<lparr>replicas = r, ring = Map.empty, sorted_keys = []\<rparr>"
  by (simp add: ring_inv_def)

lemma run_ops_adds: "run_ops md5 s (map AddNode ns) = Inr (foldl (add_node md5) s ns)"
  by (induction ns arbitrary: s) simp_all

lemma run_ops_append:
  "run_ops md5 s (xs @ ys) =
     (case run_ops md5 s xs of Inl e \<Rightarrow> Inl e | Inr s1 \<Rightarrow> run_ops md5 s1 ys)"
  by (induction md5 s xs rule: run_ops.induct) (simp_all split: sum.splits)

lemma adds_fresh_append:
  "run_ops md5 s xs = Inr s1 \<Longrightarrow>
     adds_fresh md5 s (xs @ ys) \<longleftrightarrow> adds_fresh md5 s xs \<and> adds_fresh md5 s1 ys"
  by (induction md5 s xs rule: run_ops.induct) (auto split: sum.splits)

lemma run_init_ops:
  "run_ops md5 (hashring_init md5 None r) (init_ops nodes) = Inr (hashring_init md5 nodes r)"
  by (cases nodes) (simp_all add: init_ops_def hashring_init_def run_ops_adds)

lemma ring_inv_run_ops:
  "ring_inv s \<Longrightarrow> adds_fresh md5 s ops \<Longrightarrow> run_ops md5 s ops = Inr s' \<Longrightarrow> ring_inv s'"
proof (induction md5 s ops rule: run_ops.induct)
  case (1 md5 s)
  then show ?case by simp
next
  case (2 md5 s nd ops)
  then show ?case
    by (simp add: ring_inv_add_node)
next
  case (3 md5 s nd ops)
  from "3.prems"(3) obtain s1 where r: "remove_node md5 s nd = Inr s1"
    and run: "run_ops md5 s1 ops = Inr s'"
    by (auto split: sum.splits)
  have "ring_inv s1"
    using "3.prems"(1) r by (auto simp: remove_node_def intro: ring_inv_remove_replicas)
  moreover have "adds_fresh md5 s1 ops"
    using "3.prems"(2) r by simp
  ultimately show ?case
    using "3.IH" [OF r] run by blast
qed

text \<open>
  C4, as the code has it. After the constructor and every sequence of calls of
  \<^verbatim>\<open>add_node\<close> and \<^verbatim>\<open>remove_node\<close> that all return normally, and in which every
  \<^verbatim>\<open>add_node(X)\<close> (those of the constructor too) adds a node whose replica keys are
  pairwise distinct and are not keys of \<^verbatim>\<open>self.ring\<close> at that moment, \<^verbatim>\<open>_sorted_keys\<close> is
  sorted ascending, has no repetition, and its entries are exactly the keys of
  \<^verbatim>\<open>self.ring\<close>.
\<close>

theorem sorted_keys_invariant:
  assumes "adds_fresh md5 (hashring_init md5 None r) (init_ops nodes @ ops)"
    and "run_ops md5 (hashring_init md5 nodes r) ops = Inr s'"
  shows "sorted (sorted_keys s') \<and> distinct (sorted_keys s')
       \<and> set (sorted_keys s') = dom (ring s')"
proof -
  have "run_ops md5 (hashring_init md5 None r) (init_ops nodes @ ops) = Inr s'"
    using assms(2) by (simp add: run_ops_append run_init_ops)
  moreover have "ring_inv (hashring_init md5 None r)"
    by (simp add: hashring_init_def ring_inv_empty)
  ultimately have "ring_inv s'"
    using assms(1) ring_inv_run_ops by blast
  then show ?thesis
    by (simp add: ring_inv_def)
qed

theorem sorted_keys_invariant_witness:
  "adds_fresh sample_md5 (hashring_init sample_md5 None 1)
     (init_ops (Some [''A'']) @ [AddNode ''B'', RemoveNode ''A''])
   \<and> run_ops sample_md5 (hashring_init sample_md5 (Some [''A'']) 1) [AddNode ''B'', RemoveNode ''A'']
       = Inr \<lparr>replicas = 1, ring = [gen_key sample_md5 ''B:0'' \<mapsto> ''B''],
              sorted_keys = [gen_key sample_md5 ''B:0'']\<rparr>
   \<and> sorted [gen_key sample_md5 ''B:0''] \<and> distinct [gen_key sample_md5 ''B:0'']
   \<and> set [gen_key sample_md5 ''B:0''] = dom [gen_key sample_md5 ''B:0'' \<mapsto> ''B'']"
proof -
  let ?s' = "\<lparr>replicas = 1, ring = [gen_key sample_md5 ''B:0'' \<mapsto> ''B''],
              sorted_keys = [gen_key sample_md5 ''B:0'']\<rparr>"
  have h1: "adds_fresh sample_md5 (hashring_init sample_md5 None 1)
     (init_ops (Some [''A'']) @ [AddNode ''B'', RemoveNode ''A''])"
    by (simp add: init_ops_def fresh_node_def replica_keys_def run_simps)
  have h2: "run_ops sample_md5 (hashring_init sample_md5 (Some [''A'']) 1)
      [AddNode ''B'', RemoveNode ''A''] = Inr ?s'"
    by (simp add: run_simps fun_upd_twist)
  from h1 h2 sorted_keys_invariant [OF h1 h2] show ?thesis
    by simp
qed

text \<open>
  C4 as stated fails: \<^verbatim>\<open>add_node('A')\<close> twice and then \<^verbatim>\<open>remove_node('A')\<close> all return
  normally on a ring with one replica per node, and leave \<^verbatim>\<open>self.ring\<close> empty while
  \<^verbatim>\<open>_sorted_keys\<close> still holds the key of \<^verbatim>\<open>'A:0'\<close>. This holds for every digest
  function; it is stated for the stand-in.
\<close>

theorem sorted_keys_invariant_counterexample:
  "run_ops sample_md5 (hashring_init sample_md5 None 1)
     [AddNode ''A'', AddNode ''A'', RemoveNode ''A'']
     = Inr \<lparr>replicas = 1, ring = Map.empty, sorted_keys = [gen_key sample_md5 ''A:0'']\<rparr>
   \<and> set (sorted_keys \<lparr>replicas = 1, ring = Map.empty, sorted_keys = [gen_key sample_md5 ''A:0'']\<rparr>)
       \<noteq> dom (ring \<lparr>replicas = 1, ring = Map.empty, sorted_keys = [gen_key sample_md5 ''A:0'']\<rparr>)"
  by (simp add: hashring_init_def add_node_def add_replica_def remove_node_def replica_range_def
      replica_key_def replica_name_0 Let_def)

section \<open>The clockwise lookup\<close>

lemma scan_keys_None:
  "scan_keys s h ns i = None \<longleftrightarrow> (\<forall>p \<in> set ns. \<not> h \<le> p)"
  by (induction ns arbitrary: i) simp_all

lemma scan_keys_first:
  assumes "j < length ns" and "h \<le> ns ! j" and "\<forall>l<j. \<not> h \<le> ns ! l"
  shows "scan_keys s h ns i =
           Some (case ring_at s (ns ! j) of Inl e \<Rightarrow> Inl e | Inr nd \<Rightarrow> Inr (nd, i + j))"
  using assms
proof (induction ns arbitrary: i j)
  case Nil
  then show ?case by simp
next
  case (Cons n ns)
  show ?case
  proof (cases j)
    case 0
    with Cons.prems show ?thesis by (simp split: sum.splits)
  next
    case (Suc j')
    from Cons.prems(3) Suc have "\<not> h \<le> n"
      by auto
    moreover have "scan_keys s h ns (Suc i) =
        Some (case ring_at s (ns ! j') of Inl e \<Rightarrow> Inl e | Inr nd \<Rightarrow> Inr (nd, Suc i + j'))"
    proof (rule Cons.IH)
      show "j' < length ns" using Cons.prems(1) Suc by simp
      show "h \<le> ns ! j'" using Cons.prems(2) Suc by simp
      show "\<forall>l<j'. \<not> h \<le> ns ! l"
        using Cons.prems(3) Suc by auto
    qed
    ultimately show ?thesis
      using Suc by (simp split: sum.splits)
  qed
qed

text \<open>
  C1, as the code has it. On a ring whose \<^verbatim>\<open>self.ring\<close> is not empty and whose
  \<^verbatim>\<open>_sorted_keys\<close> holds exactly the keys of \<^verbatim>\<open>self.ring\<close>, \<^verbatim>\<open>get_node_pos(k)\<close> returns
  \<^verbatim>\<open>(self.ring[p], i)\<close> for the first entry \<open>p\<close> of \<^verbatim>\<open>_sorted_keys\<close>, at index \<open>i\<close>, with
  \<^verbatim>\<open>gen_key(k) <= p\<close>; when \<^verbatim>\<open>gen_key(k)\<close> is greater than every entry it returns
  \<^verbatim>\<open>(self.ring[_sorted_keys[0]], 0)\<close>; and one of the two always applies, so the call
  returns a node and an index and does not raise.
\<close>

theorem get_node_pos_clockwise:
  assumes nonempty: "ring s \<noteq> Map.empty"
    and same: "set (sorted_keys s) = dom (ring s)"
  shows "(\<forall>i. i < length (sorted_keys s) \<and> gen_key md5 k \<le> sorted_keys s ! i
              \<and> (\<forall>j<i. sorted_keys s ! j < gen_key md5 k)
            \<longrightarrow> (\<exists>nd. ring s (sorted_keys s ! i) = Some nd
                      \<and> get_node_pos md5 s k = Inr (Some nd, Some i)))
       \<and> ((\<forall>p \<in> set (sorted_keys s). p < gen_key md5 k)
            \<longrightarrow> (\<exists>nd. ring s (sorted_keys s ! 0) = Some nd
                      \<and> get_node_pos md5 s k = Inr (Some nd, Some 0)))
       \<and> (\<exists>nd i. i < length (sorted_keys s) \<and> get_node_pos md5 s k = Inr (Some nd, Some i))"
proof -
  let ?h = "gen_key md5 k" and ?ks = "sorted_keys s"
  have ne: "?ks \<noteq> []"
    using nonempty same by (auto simp: dom_def fun_eq_iff)
  have at: "\<exists>nd. ring s (?ks ! i) = Some nd" if "i < length ?ks" for i
    using that same nth_mem [of i ?ks] by auto
  have first: "\<exists>nd. ring s (?ks ! i) = Some nd \<and> get_node_pos md5 s k = Inr (Some nd, Some i)"
    if i: "i < length ?ks" and le: "?h \<le> ?ks ! i" and before: "\<forall>j<i. ?ks ! j < ?h" for i
  proof -
    from at [OF i] obtain nd where nd: "ring s (?ks ! i) = Some nd" by blast
    have "\<forall>l<i. \<not> ?h \<le> ?ks ! l"
      using before by auto
    from scan_keys_first [OF i le this, of s 0] nd
    have "scan_keys s ?h ?ks 0 = Some (Inr (nd, i))"
      by (simp add: ring_at_def)
    with nonempty nd show ?thesis
      by (simp add: get_node_pos_def)
  qed
  have wrap: "\<exists>nd. ring s (?ks ! 0) = Some nd \<and> get_node_pos md5 s k = Inr (Some nd, Some 0)"
    if all: "\<forall>p \<in> set ?ks. p < ?h"
  proof -
    from ne at [of 0] obtain nd where nd: "ring s (?ks ! 0) = Some nd" by auto
    have "scan_keys s ?h ?ks 0 = None"
      using all by (auto simp: scan_keys_None)
    with nonempty nd ne show ?thesis
      by (cases ?ks) (simp_all add: get_node_pos_def ring_at_def)
  qed
  have total: "\<exists>nd i. i < length ?ks \<and> get_node_pos md5 s k = Inr (Some nd, Some i)"
  proof (cases "\<forall>p \<in> set ?ks. p < ?h")
    case True
    from wrap [OF True] ne show ?thesis by auto
  next
    case False
    then have ex: "\<exists>i. i < length ?ks \<and> ?h \<le> ?ks ! i"
      by (auto simp: in_set_conv_nth not_less)
    define i where "i = (LEAST i. i < length ?ks \<and> ?h \<le> ?ks ! i)"
    from ex have i: "i < length ?ks \<and> ?h \<le> ?ks ! i"
      unfolding i_def by (rule LeastI_ex)
    have "\<forall>j<i. ?ks ! j < ?h"
    proof (intro allI impI)
      fix j assume j: "j < i"
      then have "\<not> (j < length ?ks \<and> ?h \<le> ?ks ! j)"
        unfolding i_def by (rule not_less_Least)
      with j i show "?ks ! j < ?h" by auto
    qed
    with first i show ?thesis by blast
  qed
  from first wrap total show ?thesis
    by blast
qed


theorem get_node_pos_clockwise_witness:
  "ring (hashring_init sample_md5 (Some [''A'', ''B'']) 1) \<noteq> Map.empty
   \<and> set (sorted_keys (hashring_init sample_md5 (Some [''A'', ''B'']) 1))
       = dom (ring (hashring_init sample_md5 (Some [''A'', ''B'']) 1))
   \<and> get_node_pos sample_md5 (hashring_init sample_md5 (Some [''A'', ''B'']) 1) ''A:1''
       = Inr (Some ''B'', Some 1)
   \<and> get_node_pos sample_md5 (hashring_init sample_md5 (Some [''A'', ''B'']) 1) ''B:1''
       = Inr (Some ''A'', Some 0)"
proof -
  let ?s = "hashring_init sample_md5 (Some [''A'', ''B'']) 1"
  have h1: "ring ?s \<noteq> Map.empty"
    by (simp add: ring_AB1)
  have h2: "set (sorted_keys ?s) = dom (ring ?s)"
    by (auto simp: ring_AB1)
  have c1: "1 < length (sorted_keys ?s) \<and> gen_key sample_md5 ''A:1'' \<le> sorted_keys ?s ! 1
      \<and> (\<forall>j<1. sorted_keys ?s ! j < gen_key sample_md5 ''A:1'')"
    by (simp add: ring_AB1 sample_keys hexdigest_le_iff hexdigest_less_iff)
  have r1: "ring ?s (sorted_keys ?s ! 1) = Some ''B''"
    by (simp add: ring_AB1)
  have c2: "\<forall>p \<in> set (sorted_keys ?s). p < gen_key sample_md5 ''B:1''"
    by (simp add: ring_AB1 sample_keys hexdigest_less_iff)
  have r2: "ring ?s (sorted_keys ?s ! 0) = Some ''A''"
    by (simp add: ring_AB1 hexdigest_eq_iff)
  have "get_node_pos sample_md5 ?s ''A:1'' = Inr (Some ''B'', Some 1)"
    using get_node_pos_clockwise [OF h1 h2, of sample_md5 "''A:1''"] c1 r1 by force
  moreover have "get_node_pos sample_md5 ?s ''B:1'' = Inr (Some ''A'', Some 0)"
    using get_node_pos_clockwise [OF h1 h2, of sample_md5 "''B:1''"] c2 r2 by force
  ultimately show ?thesis
    using h1 h2 by blast
qed

text \<open>
  C1 as stated fails on a ring that the methods build without raising: one replica per
  node, the constructor called with \<^verbatim>\<open>['A']\<close>, then \<^verbatim>\<open>add_node('B')\<close> twice and
  \<^verbatim>\<open>remove_node('B')\<close>. \<^verbatim>\<open>self.ring\<close> then holds the key of \<^verbatim>\<open>'A:0'\<close> alone and
  \<^verbatim>\<open>_sorted_keys\<close> still holds the key of \<^verbatim>\<open>'B:0'\<close>; \<^verbatim>\<open>get_node_pos('B:0')\<close> stops at that
  entry and \<^verbatim>\<open>self.ring[node]\<close> raises \<^verbatim>\<open>KeyError\<close>. The run is that of the stand-in
  digest; with MD5 the two keys stand in the other order (\<^verbatim>\<open>2af91581...\<close> for
  \<^verbatim>\<open>'B:0'\<close> before \<^verbatim>\<open>57e1e221...\<close> for \<^verbatim>\<open>'A:0'\<close>) and the scan stops at the same entry.
\<close>

theorem get_node_pos_counterexample:
  "run_ops sample_md5 (hashring_init sample_md5 (Some [''A'']) 1)
     [AddNode ''B'', AddNode ''B'', RemoveNode ''B'']
     = Inr \<lparr>replicas = 1, ring = [gen_key sample_md5 ''A:0'' \<mapsto> ''A''],
            sorted_keys = [gen_key sample_md5 ''A:0'', gen_key sample_md5 ''B:0'']\<rparr>
   \<and> ring \<lparr>replicas = 1, ring = [gen_key sample_md5 ''A:0'' \<mapsto> ''A''],
            sorted_keys = [gen_key sample_md5 ''A:0'', gen_key sample_md5 ''B:0'']\<rparr> \<noteq> Map.empty
   \<and> get_node_pos sample_md5
        \<lparr>replicas = 1, ring = [gen_key sample_md5 ''A:0'' \<mapsto> ''A''],
         sorted_keys = [gen_key sample_md5 ''A:0'', gen_key sample_md5 ''B:0'']\<rparr> ''B:0''
       = Inl (KeyError (gen_key sample_md5 ''B:0''))"
  by (simp add: run_simps get_node_pos_def ring_at_def)

end
